theory Spec2Isabelle
  imports Complex_Main "HOL-Library.Word" "HOL-Library.Multiset"
begin

section \<open>Data model\<close>

text \<open>
  The visibility core of \<^verbatim>\<open>backend/app/viewshed.py\<close> works on NumPy arrays. An array
  is modelled by its shape and its elements in row-major order, so that the rank test
  \<^verbatim>\<open>dem.ndim != 2\<close> of the validator is a test of the model.

  Elevations are double-precision floats in the source. Here a float is an exact real or
  NaN: \<open>None\<close> is NaN, \<open>Some x\<close> is the finite value \<open>x\<close>. Rounding, overflow and
  infinities are outside this model; the scalar parameters \<^verbatim>\<open>observer_height_m\<close> and
  \<^verbatim>\<open>cell_size_m\<close> are finite reals.
\<close>

record 'a ndarray =
  shape :: "nat list"
  data :: "'a list"

type_synonym elevation = "real option"

definition ndim :: "'a ndarray \<Rightarrow> nat" where
  "ndim a = length (shape a)"

definition nrows :: "'a ndarray \<Rightarrow> nat" where
  "nrows a = shape a ! 0"

definition ncols :: "'a ndarray \<Rightarrow> nat" where
  "ncols a = shape a ! 1"

text \<open>
  \<^verbatim>\<open>a[r, c]\<close> of a rank-2 array. Every read of the source happens at an index that an
  explicit test or a \<^verbatim>\<open>range\<close> has put inside the array, so the index is a natural
  number below the extent.
\<close>

definition at2 :: "'a ndarray \<Rightarrow> nat \<Rightarrow> nat \<Rightarrow> 'a" where
  "at2 a r c = data a ! (r * ncols a + c)"

text \<open>\<^verbatim>\<open>a[r, c] = v\<close>, the array returned updated.\<close>

definition set2 :: "'a ndarray \<Rightarrow> nat \<Rightarrow> nat \<Rightarrow> 'a \<Rightarrow> 'a ndarray" where
  "set2 a r c v = a\<lparr>data := (data a)[r * ncols a + c := v]\<rparr>"

text \<open>\<^verbatim>\<open>np.zeros((rows, cols), dtype=bool)\<close>\<close>

definition zeros :: "nat \<Rightarrow> nat \<Rightarrow> bool ndarray" where
  "zeros rows cols = \<lparr>shape = [rows, cols], data = replicate (rows * cols) False\<rparr>"

text \<open>A rank-2 array holding as many elements as its shape says.\<close>

definition wf2 :: "'a ndarray \<Rightarrow> bool" where
  "wf2 a = (ndim a = 2 \<and> length (data a) = nrows a * ncols a)"

text \<open>
  The four \<^verbatim>\<open>raise\<close> sites of the engines, named after the spec's taxonomy:
  \<^verbatim>\<open>ValueError("DEM must be a 2D array.")\<close>, the two parameter \<^verbatim>\<open>ValueError\<close>s,
  \<^verbatim>\<open>IndexError("Observer index out of bounds.")\<close> and
  \<^verbatim>\<open>ValueError("Observer elevation is NaN.")\<close>. The filter's
  \<^verbatim>\<open>ValueError("mask must be a 2D array.")\<close> is a shape error too.
\<close>

datatype error = ShapeError | InvalidParameterError | OutOfBoundsError | NoDataError

definition EARTH_RADIUS_M :: real where
  "EARTH_RADIUS_M = 6371000"

section \<open>Shared primitives\<close>

definition validate_inputs :: "elevation ndarray \<Rightarrow> int \<times> int \<Rightarrow> real \<Rightarrow> real \<Rightarrow> error + unit" where
  "validate_inputs dem observer_rc observer_height_m cell_size_m =
     (if ndim dem \<noteq> 2 then Inl ShapeError
      else if cell_size_m \<le> 0 then Inl InvalidParameterError
      else if observer_height_m < 0 then Inl InvalidParameterError
      else
        let rows = int (nrows dem); cols = int (ncols dem);
            obs_r = fst observer_rc; obs_c = snd observer_rc
        in if \<not> (0 \<le> obs_r \<and> obs_r < rows \<and> 0 \<le> obs_c \<and> obs_c < cols)
           then Inl OutOfBoundsError
           else Inr ())"

definition curvature_drop :: "real \<Rightarrow> real" where
  "curvature_drop distance_m = (distance_m * distance_m) / (2 * EARTH_RADIUS_M)"

text \<open>\<^verbatim>\<open>math.hypot\<close> and \<^verbatim>\<open>math.atan2\<close> on exact reals.\<close>

definition hypot :: "real \<Rightarrow> real \<Rightarrow> real" where
  "hypot x y = sqrt (x * x + y * y)"

definition atan2 :: "real \<Rightarrow> real \<Rightarrow> real" where
  "atan2 y x =
     (if 0 < x then arctan (y / x)
      else if x < 0 then (if 0 \<le> y then arctan (y / x) + pi else arctan (y / x) - pi)
      else if 0 < y then pi / 2
      else if y < 0 then - (pi / 2)
      else 0)"

definition bilinear_sample :: "elevation ndarray \<Rightarrow> real \<Rightarrow> real \<Rightarrow> elevation" where
  "bilinear_sample dem row col =
     (let rows = int (nrows dem); cols = int (ncols dem);
          r0 = \<lfloor>row\<rfloor>; c0 = \<lfloor>col\<rfloor>;
          r1 = min (r0 + 1) (rows - 1);
          c1 = min (c0 + 1) (cols - 1)
      in if r0 < 0 \<or> c0 < 0 \<or> r0 \<ge> rows \<or> c0 \<ge> cols then None
         else
           let dr = row - of_int r0; dc = col - of_int c0 in
           (case (at2 dem (nat r0) (nat c0), at2 dem (nat r1) (nat c0),
                  at2 dem (nat r0) (nat c1), at2 dem (nat r1) (nat c1)) of
              (Some e00, Some e10, Some e01, Some e11) \<Rightarrow>
                Some (e00 * (1 - dr) * (1 - dc) + e10 * dr * (1 - dc)
                      + e01 * (1 - dr) * dc + e11 * dr * dc)
            | _ \<Rightarrow> None))"

section \<open>Baseline line-of-sight engine\<close>

text \<open>
  The body of the sampling loop \<^verbatim>\<open>for step in range(1, steps)\<close> of
  \<^verbatim>\<open>_line_of_sight\<close>: \<open>True\<close> when some sample returns \<^verbatim>\<open>False\<close> from the function.
\<close>

definition los_blocked ::
  "elevation ndarray \<Rightarrow> real \<Rightarrow> real \<Rightarrow> int \<Rightarrow> int \<Rightarrow> int \<Rightarrow> int \<Rightarrow> nat \<Rightarrow> real \<Rightarrow> bool \<Rightarrow> nat \<Rightarrow> bool"
where
  "los_blocked dem observer_elevation target_effective obs_r obs_c dr dc steps total_distance
      curvature_enabled step =
     (let t = real step / real steps;
          r = of_int obs_r + of_int dr * t;
          c = of_int obs_c + of_int dc * t
      in (case bilinear_sample dem r c of
            None \<Rightarrow> True
          | Some terrain \<Rightarrow>
              let distance = total_distance * t;
                  expected = observer_elevation + (target_effective - observer_elevation) * t;
                  terrain' = (if curvature_enabled \<and> distance > 0
                              then terrain - curvature_drop distance else terrain)
              in terrain' > expected))"

fun los_loop ::
  "elevation ndarray \<Rightarrow> real \<Rightarrow> real \<Rightarrow> int \<Rightarrow> int \<Rightarrow> int \<Rightarrow> int \<Rightarrow> nat \<Rightarrow> real \<Rightarrow> bool \<Rightarrow> nat list \<Rightarrow> bool"
where
  "los_loop dem oe te obs_r obs_c dr dc steps td curv [] = True"
| "los_loop dem oe te obs_r obs_c dr dc steps td curv (step # rest) =
     (if los_blocked dem oe te obs_r obs_c dr dc steps td curv step then False
      else los_loop dem oe te obs_r obs_c dr dc steps td curv rest)"

definition line_of_sight ::
  "elevation ndarray \<Rightarrow> real \<Rightarrow> real \<Rightarrow> int \<times> int \<Rightarrow> int \<times> int \<Rightarrow> real \<Rightarrow> bool \<Rightarrow> bool"
where
  "line_of_sight dem observer_elevation target_elevation observer_rc target_rc cell_size_m
      curvature_enabled =
     (let obs_r = fst observer_rc; obs_c = snd observer_rc;
          tgt_r = fst target_rc; tgt_c = snd target_rc;
          dr = tgt_r - obs_r; dc = tgt_c - obs_c;
          steps = nat (max \<bar>dr\<bar> \<bar>dc\<bar>)
      in if steps = 0 then True
         else
           let total_distance = hypot (of_int dr) (of_int dc) * cell_size_m;
               target_effective = (if curvature_enabled \<and> total_distance > 0
                                   then target_elevation - curvature_drop total_distance
                                   else target_elevation)
           in los_loop dem observer_elevation target_effective obs_r obs_c dr dc steps
                total_distance curvature_enabled [1..<steps])"

text \<open>The body of the two nested \<^verbatim>\<open>for\<close> loops of \<^verbatim>\<open>_compute_viewshed_baseline\<close>.\<close>

definition baseline_cell ::
  "elevation ndarray \<Rightarrow> real \<Rightarrow> int \<Rightarrow> int \<Rightarrow> real \<Rightarrow> bool \<Rightarrow> nat \<Rightarrow> nat \<Rightarrow> bool ndarray \<Rightarrow> bool ndarray"
where
  "baseline_cell dem observer_elevation obs_r obs_c cell_size_m curvature_enabled r c visibility =
     (if int r = obs_r \<and> int c = obs_c then visibility
      else (case at2 dem r c of
              None \<Rightarrow> visibility
            | Some target \<Rightarrow>
                if line_of_sight dem observer_elevation target (obs_r, obs_c) (int r, int c)
                     cell_size_m curvature_enabled
                then set2 visibility r c True
                else visibility))"

text \<open>
  \<^verbatim>\<open>_compute_viewshed_baseline\<close>. An Isabelle name cannot start with an underscore: the
  two private engines carry the prefix \<open>priv_\<close>, the other private functions drop the
  underscore.
\<close>

definition priv_compute_viewshed_baseline ::
  "elevation ndarray \<Rightarrow> int \<times> int \<Rightarrow> real \<Rightarrow> real \<Rightarrow> bool \<Rightarrow> error + bool ndarray"
where
  "priv_compute_viewshed_baseline dem observer_rc observer_height_m cell_size_m curvature_enabled =
     (case validate_inputs dem observer_rc observer_height_m cell_size_m of
        Inl e \<Rightarrow> Inl e
      | Inr _ \<Rightarrow>
          let rows = nrows dem; cols = ncols dem;
              obs_r = fst observer_rc; obs_c = snd observer_rc
          in (case at2 dem (nat obs_r) (nat obs_c) of
                None \<Rightarrow> Inl NoDataError
              | Some observer_ground \<Rightarrow>
                  let observer_elevation = observer_ground + observer_height_m;
                      visibility = set2 (zeros rows cols) (nat obs_r) (nat obs_c) True
                  in Inr (fold (\<lambda>r. fold (baseline_cell dem observer_elevation obs_r obs_c
                                             cell_size_m curvature_enabled r) [0..<cols])
                            [0..<rows] visibility)))"

section \<open>Radial sweep engine\<close>

text \<open>
  A ray bucket entry is the tuple \<^verbatim>\<open>(g, r, c, angle)\<close>. The dictionary \<^verbatim>\<open>rays\<close> is an
  association list in insertion order, the order in which \<^verbatim>\<open>rays.values()\<close> is visited.
\<close>

type_synonym entry = "int \<times> nat \<times> nat \<times> real"

type_synonym rays = "((int \<times> int) \<times> entry list) list"

text \<open>\<^verbatim>\<open>rays.setdefault(direction, []).append(e)\<close>\<close>

fun setdefault_append :: "rays \<Rightarrow> int \<times> int \<Rightarrow> entry \<Rightarrow> rays" where
  "setdefault_append [] direction e = [(direction, [e])]"
| "setdefault_append ((k, entries) # rest) direction e =
     (if k = direction then (k, entries @ [e]) # rest
      else (k, entries) # setdefault_append rest direction e)"

text \<open>The body of the bucketing loops of \<^verbatim>\<open>_compute_viewshed_radial\<close>.\<close>

definition radial_cell ::
  "elevation ndarray \<Rightarrow> real \<Rightarrow> int \<Rightarrow> int \<Rightarrow> real \<Rightarrow> bool \<Rightarrow> nat \<Rightarrow> nat \<Rightarrow> rays \<Rightarrow> rays"
where
  "radial_cell dem observer_elevation obs_r obs_c cell_size_m curvature_enabled r c rays =
     (if int r = obs_r \<and> int c = obs_c then rays
      else (case at2 dem r c of
              None \<Rightarrow> rays
            | Some target \<Rightarrow>
                let dr = int r - obs_r; dc = int c - obs_c;
                    g = gcd \<bar>dr\<bar> \<bar>dc\<bar>
                in if g = 0 then rays
                   else
                     let direction = (dr div g, dc div g);
                         distance = hypot (of_int dr) (of_int dc) * cell_size_m;
                         target_effective = (if curvature_enabled \<and> distance > 0
                                             then target - curvature_drop distance else target);
                         angle = atan2 (target_effective - observer_elevation) distance
                     in setdefault_append rays direction (g, r, c, angle)))"

text \<open>
  The running maximum angle of a sweep starts at \<^verbatim>\<open>-math.inf\<close>; every angle is a finite
  value of \<^verbatim>\<open>atan2\<close>.
\<close>

datatype horizon = NegInf | Angle real

definition epsilon :: real where
  "epsilon = 1 / 10 ^ 12"

text \<open>\<^verbatim>\<open>angle >= max_angle - epsilon\<close> and \<^verbatim>\<open>angle > max_angle\<close>\<close>

fun within_tolerance :: "real \<Rightarrow> horizon \<Rightarrow> bool" where
  "within_tolerance angle NegInf = True"
| "within_tolerance angle (Angle m) = (angle \<ge> m - epsilon)"

fun above :: "real \<Rightarrow> horizon \<Rightarrow> bool" where
  "above angle NegInf = True"
| "above angle (Angle m) = (angle > m)"

text \<open>The loop \<^verbatim>\<open>for _, r, c, angle in entries\<close> over one sorted bucket.\<close>

fun sweep :: "entry list \<Rightarrow> horizon \<Rightarrow> bool ndarray \<Rightarrow> bool ndarray" where
  "sweep [] max_angle visibility = visibility"
| "sweep ((g, r, c, angle) # entries) max_angle visibility =
     (if within_tolerance angle max_angle
      then sweep entries (if above angle max_angle then Angle angle else max_angle)
             (set2 visibility r c True)
      else sweep entries max_angle visibility)"

text \<open>
  One iteration of \<^verbatim>\<open>for entries in rays.values()\<close>. \<^verbatim>\<open>list.sort\<close> with a key is
  stable, as \<open>sort_key\<close> is.
\<close>

definition sweep_bucket :: "(int \<times> int) \<times> entry list \<Rightarrow> bool ndarray \<Rightarrow> bool ndarray" where
  "sweep_bucket bucket visibility = sweep (sort_key fst (snd bucket)) NegInf visibility"

text \<open>\<^verbatim>\<open>_compute_viewshed_radial\<close>\<close>

definition priv_compute_viewshed_radial ::
  "elevation ndarray \<Rightarrow> int \<times> int \<Rightarrow> real \<Rightarrow> real \<Rightarrow> bool \<Rightarrow> error + bool ndarray"
where
  "priv_compute_viewshed_radial dem observer_rc observer_height_m cell_size_m curvature_enabled =
     (case validate_inputs dem observer_rc observer_height_m cell_size_m of
        Inl e \<Rightarrow> Inl e
      | Inr _ \<Rightarrow>
          let rows = nrows dem; cols = ncols dem;
              obs_r = fst observer_rc; obs_c = snd observer_rc
          in (case at2 dem (nat obs_r) (nat obs_c) of
                None \<Rightarrow> Inl NoDataError
              | Some observer_ground \<Rightarrow>
                  let observer_elevation = observer_ground + observer_height_m;
                      visibility = set2 (zeros rows cols) (nat obs_r) (nat obs_c) True;
                      rays = fold (\<lambda>r. fold (radial_cell dem observer_elevation obs_r obs_c
                                                cell_size_m curvature_enabled r) [0..<cols])
                               [0..<rows] []
                  in Inr (fold sweep_bucket rays visibility)))"

section \<open>Public entry points\<close>

definition compute_viewshed ::
  "elevation ndarray \<Rightarrow> int \<times> int \<Rightarrow> real \<Rightarrow> real \<Rightarrow> bool \<Rightarrow> error + bool ndarray"
where
  "compute_viewshed dem observer_rc observer_height_m cell_size_m curvature_enabled =
     priv_compute_viewshed_baseline dem observer_rc observer_height_m cell_size_m curvature_enabled"

definition compute_viewshed_radial ::
  "elevation ndarray \<Rightarrow> int \<times> int \<Rightarrow> real \<Rightarrow> real \<Rightarrow> bool \<Rightarrow> error + bool ndarray"
where
  "compute_viewshed_radial dem observer_rc observer_height_m cell_size_m curvature_enabled =
     priv_compute_viewshed_radial dem observer_rc observer_height_m cell_size_m curvature_enabled"

definition compute_viewshed_baseline ::
  "elevation ndarray \<Rightarrow> int \<times> int \<Rightarrow> real \<Rightarrow> real \<Rightarrow> bool \<Rightarrow> error + bool ndarray"
where
  "compute_viewshed_baseline dem observer_rc observer_height_m cell_size_m curvature_enabled =
     priv_compute_viewshed_baseline dem observer_rc observer_height_m cell_size_m curvature_enabled"

section \<open>Mask postprocessor\<close>

text \<open>
  \<^verbatim>\<open>np.pad(current, 1, mode="constant", constant_values=0)\<close> read at \<^verbatim>\<open>[i, j]\<close>: the
  padded array holds \<^verbatim>\<open>current[i - 1, j - 1]\<close> inside the frame and 0 on it.
\<close>

definition padded :: "8 word ndarray \<Rightarrow> nat \<Rightarrow> nat \<Rightarrow> 8 word" where
  "padded current i j =
     (if 1 \<le> i \<and> i \<le> nrows current \<and> 1 \<le> j \<and> j \<le> ncols current
      then at2 current (i - 1) (j - 1) else 0)"

text \<open>
  The nine shifted slices of the padded array, added elementwise in \<^verbatim>\<open>uint8\<close>, read at
  the cell \<^verbatim>\<open>[r, c]\<close> of the result.
\<close>

definition window_sum :: "8 word ndarray \<Rightarrow> nat \<Rightarrow> nat \<Rightarrow> 8 word" where
  "window_sum current r c =
     padded current r c + padded current r (c + 1) + padded current r (c + 2)
     + padded current (r + 1) c + padded current (r + 1) (c + 1) + padded current (r + 1) (c + 2)
     + padded current (r + 2) c + padded current (r + 2) (c + 1) + padded current (r + 2) (c + 2)"

text \<open>One iteration of \<^verbatim>\<open>for _ in range(passes)\<close>.\<close>

definition smooth_pass :: "int option \<Rightarrow> 8 word ndarray \<Rightarrow> 8 word ndarray" where
  "smooth_pass threshold current =
     (let required = (case threshold of Some t \<Rightarrow> t | None \<Rightarrow> 5)
      in \<lparr>shape = shape current,
          data = concat (map (\<lambda>r. map (\<lambda>c. of_bool (uint (window_sum current r c) \<ge> required))
                                     [0..<ncols current])
                           [0..<nrows current])\<rparr>)"

definition smooth_visibility_mask :: "bool ndarray \<Rightarrow> int \<Rightarrow> int option \<Rightarrow> error + bool ndarray" where
  "smooth_visibility_mask mask_in passes threshold =
     (if ndim mask_in \<noteq> 2 then Inl ShapeError
      else if passes < 1 then Inr mask_in
      else
        let current = \<lparr>shape = shape mask_in, data = map of_bool (data mask_in)\<rparr>;
            current' = (smooth_pass threshold ^^ nat passes) current
        in Inr \<lparr>shape = shape current', data = map (\<lambda>v. v \<noteq> 0) (data current')\<rparr>)"

section \<open>Notions used by the properties\<close>

text \<open>
  The cells visited by \<^verbatim>\<open>for r in range(rows): for c in range(cols)\<close>, in that order.
\<close>

definition cells :: "nat \<Rightarrow> nat \<Rightarrow> (nat \<times> nat) list" where
  "cells rows cols = concat (map (\<lambda>r. map (Pair r) [0..<cols]) [0..<rows])"

text \<open>Setting the listed cells of a mask to \<^verbatim>\<open>True\<close>, one after the other.\<close>

definition mark :: "(nat \<times> nat) list \<Rightarrow> bool ndarray \<Rightarrow> bool ndarray" where
  "mark cs visibility = fold (\<lambda>rc v. set2 v (fst rc) (snd rc) True) cs visibility"

text \<open>An array of shape \<^verbatim>\<open>(rows, cols)\<close> with that many elements.\<close>

definition has_shape :: "nat \<Rightarrow> nat \<Rightarrow> 'a ndarray \<Rightarrow> bool" where
  "has_shape rows cols a = (shape a = [rows, cols] \<and> length (data a) = rows * cols)"

text \<open>
  The test under which the baseline loop body writes \<^verbatim>\<open>visibility[r, c] = True\<close>.
\<close>

definition baseline_visible ::
  "elevation ndarray \<Rightarrow> real \<Rightarrow> int \<Rightarrow> int \<Rightarrow> real \<Rightarrow> bool \<Rightarrow> nat \<times> nat \<Rightarrow> bool"
where
  "baseline_visible dem oe obs_r obs_c cs curv rc =
     (\<not> (int (fst rc) = obs_r \<and> int (snd rc) = obs_c) \<and>
      (case at2 dem (fst rc) (snd rc) of
         None \<Rightarrow> False
       | Some target \<Rightarrow>
           line_of_sight dem oe target (obs_r, obs_c) (int (fst rc), int (snd rc)) cs curv))"

text \<open>
  The quantities the radial engine computes for a cell: the distance multiplier \<^verbatim>\<open>g\<close>,
  the canonical direction, and the elevation angle of a target elevation.
\<close>

definition multiplier :: "int \<Rightarrow> int \<Rightarrow> nat \<times> nat \<Rightarrow> int" where
  "multiplier obs_r obs_c rc = gcd \<bar>int (fst rc) - obs_r\<bar> \<bar>int (snd rc) - obs_c\<bar>"

definition direction_of :: "int \<Rightarrow> int \<Rightarrow> nat \<times> nat \<Rightarrow> int \<times> int" where
  "direction_of obs_r obs_c rc =
     ((int (fst rc) - obs_r) div multiplier obs_r obs_c rc,
      (int (snd rc) - obs_c) div multiplier obs_r obs_c rc)"

definition elevation_angle :: "real \<Rightarrow> int \<Rightarrow> int \<Rightarrow> real \<Rightarrow> bool \<Rightarrow> nat \<times> nat \<Rightarrow> real \<Rightarrow> real" where
  "elevation_angle oe obs_r obs_c cs curv rc target =
     (let distance = hypot (of_int (int (fst rc) - obs_r)) (of_int (int (snd rc) - obs_c)) * cs;
          target_effective = (if curv \<and> distance > 0 then target - curvature_drop distance
                              else target)
      in atan2 (target_effective - oe) distance)"

text \<open>
  The cells the bucketing loop appends to a ray: every cell but the observer whose
  elevation is not NaN. \<open>angle_at\<close> and \<open>entry_of\<close> are the angle and the tuple it appends.
\<close>

definition ray_member :: "elevation ndarray \<Rightarrow> int \<Rightarrow> int \<Rightarrow> nat \<times> nat \<Rightarrow> bool" where
  "ray_member dem obs_r obs_c rc =
     (\<not> (int (fst rc) = obs_r \<and> int (snd rc) = obs_c) \<and> at2 dem (fst rc) (snd rc) \<noteq> None)"

definition angle_at ::
  "elevation ndarray \<Rightarrow> real \<Rightarrow> int \<Rightarrow> int \<Rightarrow> real \<Rightarrow> bool \<Rightarrow> nat \<times> nat \<Rightarrow> real"
where
  "angle_at dem oe obs_r obs_c cs curv rc =
     elevation_angle oe obs_r obs_c cs curv rc (the (at2 dem (fst rc) (snd rc)))"

definition entry_of ::
  "elevation ndarray \<Rightarrow> real \<Rightarrow> int \<Rightarrow> int \<Rightarrow> real \<Rightarrow> bool \<Rightarrow> nat \<times> nat \<Rightarrow> entry"
where
  "entry_of dem oe obs_r obs_c cs curv rc =
     (multiplier obs_r obs_c rc, fst rc, snd rc, angle_at dem oe obs_r obs_c cs curv rc)"

text \<open>
  The cells a sweep marks, in order, and the horizon it holds after a prefix of a bucket.
\<close>

fun swept :: "entry list \<Rightarrow> horizon \<Rightarrow> (nat \<times> nat) list" where
  "swept [] max_angle = []"
| "swept ((g, r, c, angle) # entries) max_angle =
     (if within_tolerance angle max_angle
      then (r, c) # swept entries (if above angle max_angle then Angle angle else max_angle)
      else swept entries max_angle)"

fun running_max :: "horizon \<Rightarrow> entry list \<Rightarrow> horizon" where
  "running_max m [] = m"
| "running_max m ((g, r, c, angle) # entries) =
     running_max (if above angle m then Angle angle else m) entries"

text \<open>
  The sweep as the spec words it: a ray member is visible when its angle is at least the
  angle of every nearer member of its ray (smaller distance multiplier, same canonical
  direction) minus the tolerance.
\<close>

definition radial_visible ::
  "elevation ndarray \<Rightarrow> real \<Rightarrow> int \<Rightarrow> int \<Rightarrow> real \<Rightarrow> bool \<Rightarrow> nat \<times> nat \<Rightarrow> bool"
where
  "radial_visible dem oe obs_r obs_c cs curv rc =
     (ray_member dem obs_r obs_c rc \<and>
      list_all (\<lambda>rc'. ray_member dem obs_r obs_c rc'
                        \<and> direction_of obs_r obs_c rc' = direction_of obs_r obs_c rc
                        \<and> multiplier obs_r obs_c rc' < multiplier obs_r obs_c rc
                      \<longrightarrow> angle_at dem oe obs_r obs_c cs curv rc' - epsilon
                            \<le> angle_at dem oe obs_r obs_c cs curv rc)
        (cells (nrows dem) (ncols dem)))"

text \<open>The eye elevation, and the preconditions of an engine call.\<close>

definition observer_elevation_of :: "elevation ndarray \<Rightarrow> int \<times> int \<Rightarrow> real \<Rightarrow> real" where
  "observer_elevation_of dem observer_rc observer_height_m =
     the (at2 dem (nat (fst observer_rc)) (nat (snd observer_rc))) + observer_height_m"

definition in_bounds :: "elevation ndarray \<Rightarrow> int \<times> int \<Rightarrow> bool" where
  "in_bounds dem observer_rc =
     (0 \<le> fst observer_rc \<and> fst observer_rc < int (nrows dem) \<and>
      0 \<le> snd observer_rc \<and> snd observer_rc < int (ncols dem))"

definition valid_input :: "elevation ndarray \<Rightarrow> int \<times> int \<Rightarrow> real \<Rightarrow> real \<Rightarrow> bool" where
  "valid_input dem observer_rc observer_height_m cell_size_m =
     (wf2 dem \<and> 0 < cell_size_m \<and> 0 \<le> observer_height_m \<and> in_bounds dem observer_rc \<and>
      at2 dem (nat (fst observer_rc)) (nat (snd observer_rc)) \<noteq> None)"

text \<open>An \<^verbatim>\<open>uint8\<close> array that holds only 0 and 1, as every \<^verbatim>\<open>astype(np.uint8)\<close> of a boolean array does.\<close>

definition bits :: "8 word ndarray \<Rightarrow> bool" where
  "bits a = list_all (\<lambda>v. v = 0 \<or> v = 1) (data a)"


section \<open>Auxiliary lemmas\<close>

lemma idx_lt: "r < m \<Longrightarrow> c < n \<Longrightarrow> r * n + c < m * (n::nat)"
proof -
  assume a: "r < m" "c < n"
  then have "r * n + c < r * n + n" by simp
  also have "\<dots> = Suc r * n" by simp
  also have "\<dots> \<le> m * n" using a(1) by (intro mult_le_mono1) simp
  finally show ?thesis .
qed

lemma idx_inj: "c < n \<Longrightarrow> c' < n \<Longrightarrow> (r * n + c = r' * n + c') = (r = r' \<and> c = (c'::nat))"
proof
  assume a: "c < n" "c' < n" and e: "r * n + c = r' * n + c'"
  have "(r * n + c) div n = r" "(r' * n + c') div n = r'" using a by simp_all
  with e have "r = r'" by simp
  with e show "r = r' \<and> c = c'" by simp
qed auto

lemma has_shape_dims: "has_shape rows cols a \<Longrightarrow> nrows a = rows \<and> ncols a = cols \<and> ndim a = 2"
  by (simp add: has_shape_def nrows_def ncols_def ndim_def)

lemma has_shape_zeros: "has_shape rows cols (zeros rows cols)"
  by (simp add: has_shape_def zeros_def)

lemma has_shape_set2: "has_shape rows cols a \<Longrightarrow> has_shape rows cols (set2 a r c v)"
  by (simp add: has_shape_def set2_def)

lemma shape_set2: "shape (set2 a r c v) = shape a"
  by (simp add: set2_def)

lemma at2_set2:
  assumes "has_shape rows cols a" "r < rows" "c < cols" "c' < cols"
  shows "at2 (set2 a r c v) r' c' = (if r' = r \<and> c' = c then v else at2 a r' c')"
proof -
  have n: "ncols a = cols"
    using assms(1) has_shape_dims by blast
  have l: "r * cols + c < length (data a)"
    using assms by (simp add: has_shape_def idx_lt)
  have "ncols (set2 a r c v) = cols" "data (set2 a r c v) = (data a)[r * cols + c := v]"
    using n by (simp_all add: set2_def ncols_def)
  then have "at2 (set2 a r c v) r' c' = (data a)[r * cols + c := v] ! (r' * cols + c')"
    by (simp add: at2_def)
  also have "\<dots> = (if r' = r \<and> c' = c then v else data a ! (r' * cols + c'))"
    using l idx_inj[OF assms(3,4), of r r'] by (auto simp: nth_list_update)
  finally show ?thesis by (simp add: at2_def n)
qed

lemma at2_zeros: "r < rows \<Longrightarrow> c < cols \<Longrightarrow> at2 (zeros rows cols) r c = False"
  by (simp add: at2_def zeros_def ncols_def idx_lt)

lemma has_shape_mark: "has_shape rows cols a \<Longrightarrow> has_shape rows cols (mark cs a)"
  unfolding mark_def by (induction cs arbitrary: a) (simp_all add: has_shape_set2)

lemma mark_Nil: "mark [] a = a" by (simp add: mark_def)

lemma mark_Cons: "mark (rc # cs) a = mark cs (set2 a (fst rc) (snd rc) True)" by (simp add: mark_def)

lemma mark_append: "mark (xs @ ys) a = mark ys (mark xs a)" by (simp add: mark_def)

lemma at2_mark:
  assumes "has_shape rows cols a" "\<forall>rc \<in> set cs. fst rc < rows \<and> snd rc < cols" "c < cols"
  shows "at2 (mark cs a) r c \<longleftrightarrow> at2 a r c \<or> (r, c) \<in> set cs"
  using assms(1,2)
proof (induction cs arbitrary: a)
  case Nil
  then show ?case by (simp add: mark_Nil)
next
  case (Cons rc cs)
  have s: "has_shape rows cols (set2 a (fst rc) (snd rc) True)"
    using Cons.prems(1) by (rule has_shape_set2)
  have "at2 (mark cs (set2 a (fst rc) (snd rc) True)) r c
          \<longleftrightarrow> at2 (set2 a (fst rc) (snd rc) True) r c \<or> (r, c) \<in> set cs"
    using Cons.IH[OF s] Cons.prems(2) by simp
  moreover have "at2 (set2 a (fst rc) (snd rc) True) r c \<longleftrightarrow> at2 a r c \<or> (r, c) = rc"
    using at2_set2[OF Cons.prems(1), of "fst rc" "snd rc" c True r] Cons.prems(2) assms(3)
    by (cases rc) auto
  ultimately show ?case by (auto simp: mark_Cons)
qed

lemma fold_nested:
  "fold (\<lambda>r. fold (f r) cs) rs s = fold (\<lambda>rc. f (fst rc) (snd rc)) (concat (map (\<lambda>r. map (Pair r) cs) rs)) s"
proof (induction rs arbitrary: s)
  case Nil
  then show ?case by simp
next
  case (Cons r rs)
  have "fold (f r) cs s = fold (\<lambda>rc. f (fst rc) (snd rc)) (map (Pair r) cs) s"
    by (simp add: fold_map comp_def)
  then show ?case using Cons.IH by simp
qed

lemma fold_cells:
  "fold (\<lambda>r. fold (f r) [0..<cols]) [0..<rows] s = fold (\<lambda>rc. f (fst rc) (snd rc)) (cells rows cols) s"
  unfolding cells_def by (rule fold_nested)

lemma set_cells: "set (cells rows cols) = {rc. fst rc < rows \<and> snd rc < cols}"
  by (auto simp: cells_def)

lemma cells_product: "cells rows cols = List.product [0..<rows] [0..<cols]"
  by (simp add: cells_def product_concat_map)

lemma distinct_cells: "distinct (cells rows cols)"
  by (simp add: cells_product distinct_product)

lemma fold_cond_mark:
  "fold (\<lambda>rc v. if P rc then set2 v (fst rc) (snd rc) True else v) xs a = mark (filter P xs) a"
  by (induction xs arbitrary: a) (simp_all add: mark_Nil mark_Cons)

lemma baseline_cell_eq:
  "baseline_cell dem oe obs_r obs_c cs curv r c v =
     (if baseline_visible dem oe obs_r obs_c cs curv (r, c) then set2 v r c True else v)"
  by (simp add: baseline_cell_def baseline_visible_def split: option.splits)

lemma baseline_fold:
  "fold (\<lambda>r. fold (baseline_cell dem oe obs_r obs_c cs curv r) [0..<cols]) [0..<rows] v =
     mark (filter (baseline_visible dem oe obs_r obs_c cs curv) (cells rows cols)) v"
proof -
  have "(\<lambda>rc. baseline_cell dem oe obs_r obs_c cs curv (fst rc) (snd rc)) =
        (\<lambda>rc v. if baseline_visible dem oe obs_r obs_c cs curv rc
                 then set2 v (fst rc) (snd rc) True else v)"
    by (intro ext) (simp add: baseline_cell_eq)
  then show ?thesis by (simp add: fold_cells fold_cond_mark)
qed

lemma multiplier_zero_iff:
  "multiplier obs_r obs_c rc = 0 \<longleftrightarrow> int (fst rc) = obs_r \<and> int (snd rc) = obs_c"
  by (auto simp: multiplier_def)


lemma radial_cell_eq:
  "radial_cell dem oe obs_r obs_c cs curv r c rays =
     (if ray_member dem obs_r obs_c (r, c)
      then setdefault_append rays (direction_of obs_r obs_c (r, c))
             (entry_of dem oe obs_r obs_c cs curv (r, c))
      else rays)"
  using multiplier_zero_iff[of obs_r obs_c "(r, c)"]
  by (auto simp: radial_cell_def ray_member_def entry_of_def direction_of_def angle_at_def
        elevation_angle_def multiplier_def Let_def split: option.splits)

lemma fold_filter_cond:
  "fold (\<lambda>x s. if P x then f x s else s) xs s = fold f (filter P xs) s"
  by (induction xs arbitrary: s) simp_all

lemma radial_fold:
  "fold (\<lambda>r. fold (radial_cell dem oe obs_r obs_c cs curv r) [0..<cols]) [0..<rows] rays =
     fold (\<lambda>rc rays. setdefault_append rays (direction_of obs_r obs_c rc)
                        (entry_of dem oe obs_r obs_c cs curv rc))
       (filter (ray_member dem obs_r obs_c) (cells rows cols)) rays"
proof -
  have "(\<lambda>rc. radial_cell dem oe obs_r obs_c cs curv (fst rc) (snd rc)) =
        (\<lambda>rc rays. if ray_member dem obs_r obs_c rc
                 then setdefault_append rays (direction_of obs_r obs_c rc)
                        (entry_of dem oe obs_r obs_c cs curv rc) else rays)"
    by (intro ext) (simp add: radial_cell_eq)
  then show ?thesis by (simp add: fold_cells fold_filter_cond)
qed

lemma keys_setdefault_append:
  "map fst (setdefault_append rays d e) =
     (if d \<in> set (map fst rays) then map fst rays else map fst rays @ [d])"
  by (induction rays d e rule: setdefault_append.induct) auto

lemma distinct_setdefault_append:
  "distinct (map fst rays) \<Longrightarrow> distinct (map fst (setdefault_append rays d e))"
  by (simp add: keys_setdefault_append)

lemma map_of_setdefault_append:
  "map_of (setdefault_append rays d e) k =
     (if k = d then Some ((case map_of rays d of None \<Rightarrow> [] | Some es \<Rightarrow> es) @ [e])
      else map_of rays k)"
  by (induction rays d e rule: setdefault_append.induct) auto

lemma distinct_bucketing:
  "distinct (map fst rays) \<Longrightarrow>
   distinct (map fst (fold (\<lambda>x rays. setdefault_append rays (key x) (val x)) xs rays))"
  by (induction xs arbitrary: rays) (simp_all add: distinct_setdefault_append)

lemma map_of_bucketing:
  "map_of (fold (\<lambda>x rays. setdefault_append rays (key x) (val x)) xs rays) k =
     (if filter (\<lambda>x. key x = k) xs = [] then map_of rays k
      else Some ((case map_of rays k of None \<Rightarrow> [] | Some es \<Rightarrow> es)
                 @ map val (filter (\<lambda>x. key x = k) xs)))"
proof (induction xs arbitrary: rays)
  case Nil
  then show ?case by simp
next
  case (Cons x xs)
  show ?case
    by (simp add: Cons.IH map_of_setdefault_append split: option.splits)
qed

lemma set_bucketing:
  "(k, es) \<in> set (fold (\<lambda>x rays. setdefault_append rays (key x) (val x)) xs []) \<longleftrightarrow>
     es = map val (filter (\<lambda>x. key x = k) xs) \<and> es \<noteq> []"
proof -
  let ?R = "fold (\<lambda>x rays. setdefault_append rays (key x) (val x)) xs []"
  have d: "distinct (map fst ?R)" by (rule distinct_bucketing) simp
  have "(k, es) \<in> set ?R \<longleftrightarrow> map_of ?R k = Some es"
    using d by simp
  then show ?thesis by (auto simp: map_of_bucketing)
qed

lemma epsilon_pos: "0 < epsilon"
  by (simp add: epsilon_def)

lemma above_within: "above a m \<Longrightarrow> within_tolerance a m"
  using epsilon_pos by (cases m) auto

lemma sweep_mark: "sweep es m v = mark (swept es m) v"
  by (induction es m v rule: sweep.induct) (simp_all add: mark_Nil mark_Cons)

lemma within_step:
  "within_tolerance a (if above b m then Angle b else m) \<longleftrightarrow>
     within_tolerance a m \<and> b - epsilon \<le> a"
  by (cases m) auto

lemma within_running_max:
  "within_tolerance a (running_max m pre) \<longleftrightarrow>
     within_tolerance a m \<and> (\<forall>e \<in> set pre. snd (snd (snd e)) - epsilon \<le> a)"
proof (induction pre arbitrary: m)
  case Nil
  then show ?case by simp
next
  case (Cons e pre)
  obtain g r c b where e: "e = (g, r, c, b)" by (cases e) auto
  show ?case by (auto simp: e Cons.IH within_step)
qed

lemma swept_iff:
  "(r, c) \<in> set (swept es m) \<longleftrightarrow>
     (\<exists>pre g a post. es = pre @ (g, r, c, a) # post \<and> within_tolerance a (running_max m pre))"
proof (induction es m rule: swept.induct)
  case (1 m)
  then show ?case by simp
next
  case (2 g' r' c' b es m)
  let ?m' = "if above b m then Angle b else m"
  have rm: "\<And>pre. running_max m ((g', r', c', b) # pre) = running_max ?m' pre"
    by simp
  have split: "\<And>P. (\<exists>pre. P pre) \<longleftrightarrow> P [] \<or> (\<exists>x pre. P (x # pre))"
    by (metis list.exhaust)
  have rhs: "(\<exists>pre g a post. (g', r', c', b) # es = pre @ (g, r, c, a) # post
                 \<and> within_tolerance a (running_max m pre))
        \<longleftrightarrow> ((r', c') = (r, c) \<and> within_tolerance b m)
            \<or> (\<exists>pre g a post. es = pre @ (g, r, c, a) # post
                 \<and> within_tolerance a (running_max ?m' pre))"
    apply (subst split)
    apply (simp only: rm append_Nil append_Cons list.inject)
    apply auto
    done
  show ?case
  proof (cases "within_tolerance b m")
    case True
    then show ?thesis using 2(1) rhs by auto
  next
    case False
    then have nb: "\<not> above b m" using above_within by blast
    show ?thesis using False 2(2) rhs nb by auto
  qed
qed

lemma Max_insert_insert:
  "finite A \<Longrightarrow> Max (insert x (insert b A)) = Max (insert (max x b) (A::real set))"
  by (cases "A = {}") (simp_all add: max.assoc)

lemma running_max_Angle:
  "running_max (Angle x) pre = Angle (Max (insert x (set (map (\<lambda>e. snd (snd (snd e))) pre))))"
proof (induction pre arbitrary: x)
  case Nil
  then show ?case by simp
next
  case (Cons e pre)
  obtain g r c b where e: "e = (g, r, c, b)" by (cases e) auto
  define A where "A = set (map (\<lambda>e. snd (snd (snd e))) pre)"
  have fin: "finite A" by (simp add: A_def)
  have A': "set (map (\<lambda>e. snd (snd (snd e))) (e # pre)) = insert b A"
    by (simp add: A_def e)
  have "running_max (Angle x) (e # pre) = running_max (Angle (max x b)) pre"
    by (simp add: e max_def)
  also have "\<dots> = Angle (Max (insert (max x b) A))"
    unfolding A_def by (rule Cons.IH)
  also have "\<dots> = Angle (Max (insert x (insert b A)))"
    by (simp only: Max_insert_insert[OF fin])
  finally show ?case by (simp only: A')
qed

lemma running_max_eq:
  "running_max NegInf pre =
     (if pre = [] then NegInf else Angle (Max (set (map (\<lambda>e. snd (snd (snd e))) pre))))"
proof (cases pre)
  case Nil
  then show ?thesis by simp
next
  case (Cons e pre')
  obtain g' r c b where e: "e = (g', r, c, b)" by (cases e) auto
  show ?thesis by (simp add: Cons e running_max_Angle)
qed

lemma sorted_distinct_prefix:
  assumes "sorted (map f (pre @ x # post))" "distinct (map f (pre @ x # post))"
  shows "set pre = {y \<in> set (pre @ x # post). f y < f x}"
proof -
  have a: "\<forall>y \<in> set pre. f y \<le> f x" "\<forall>z \<in> set post. f x \<le> f z"
    using assms(1) by (auto simp: sorted_append)
  have b: "\<forall>y \<in> set pre. f y \<noteq> f x"
    using assms(2) by (auto simp: image_iff)
  show ?thesis using a b by force
qed

lemma fold_sweep_bucket:
  "fold sweep_bucket rays v =
     mark (concat (map (\<lambda>b. swept (sort_key fst (snd b)) NegInf) rays)) v"
  by (induction rays arbitrary: v) (simp_all add: mark_Nil mark_append sweep_bucket_def sweep_mark)

lemma multiplier_direction_inj:
  assumes "multiplier obs_r obs_c rc = multiplier obs_r obs_c rc'"
      and "direction_of obs_r obs_c rc = direction_of obs_r obs_c rc'"
  shows "rc = rc'"
proof -
  define g where "g = multiplier obs_r obs_c rc"
  have g': "multiplier obs_r obs_c rc' = g" using assms(1) g_def by simp
  have d1: "g dvd int (fst rc) - obs_r" "g dvd int (snd rc) - obs_c"
    unfolding g_def by (simp_all add: multiplier_def)
  have d2: "g dvd int (fst rc') - obs_r" "g dvd int (snd rc') - obs_c"
    unfolding g'[symmetric] by (simp_all add: multiplier_def)
  note d = d1 d2
  have e: "(int (fst rc) - obs_r) div g = (int (fst rc') - obs_r) div g"
          "(int (snd rc) - obs_c) div g = (int (snd rc') - obs_c) div g"
    using assms(2) by (simp_all add: direction_of_def g_def[symmetric] g')
  have "int (fst rc) - obs_r = int (fst rc') - obs_r"
    using d(1,3) e(1) by (metis dvd_div_mult_self)
  moreover have "int (snd rc) - obs_c = int (snd rc') - obs_c"
    using d(2,4) e(2) by (metis dvd_div_mult_self)
  ultimately show ?thesis by (simp add: prod_eq_iff)
qed

lemma swept_subset: "(r, c) \<in> set (swept es m) \<Longrightarrow> \<exists>g a. (g, r, c, a) \<in> set es"
  unfolding swept_iff by fastforce

lemma bucket_swept:
  fixes dem oe obs_r obs_c cs curv k rows cols
  defines "B \<equiv> filter (\<lambda>x. direction_of obs_r obs_c x = k)
                 (filter (ray_member dem obs_r obs_c) (cells rows cols))"
  defines "es \<equiv> map (entry_of dem oe obs_r obs_c cs curv) B"
  shows "(r, c) \<in> set (swept (sort_key fst es) NegInf) \<longleftrightarrow>
           (r, c) \<in> set B \<and>
           (\<forall>rc' \<in> set B. multiplier obs_r obs_c rc' < multiplier obs_r obs_c (r, c) \<longrightarrow>
              angle_at dem oe obs_r obs_c cs curv rc' - epsilon
                \<le> angle_at dem oe obs_r obs_c cs curv (r, c))"
    (is "?L \<longleftrightarrow> ?R")
proof -
  let ?S = "sort_key fst es"
  let ?ent = "entry_of dem oe obs_r obs_c cs curv"
  have setS: "set ?S = ?ent ` set B" by (simp add: es_def)
  have dB: "distinct B" by (simp add: B_def distinct_cells)
  have injB: "inj_on (multiplier obs_r obs_c) (set B)"
  proof (rule inj_onI)
    fix x y assume "x \<in> set B" "y \<in> set B" "multiplier obs_r obs_c x = multiplier obs_r obs_c y"
    moreover from this have "direction_of obs_r obs_c x = direction_of obs_r obs_c y"
      by (simp add: B_def)
    ultimately show "x = y" by (blast intro: multiplier_direction_inj)
  qed
  have "map fst es = map (multiplier obs_r obs_c) B"
    by (simp add: es_def entry_of_def comp_def)
  then have des: "distinct (map fst es)" using dB injB by (simp add: distinct_map)
  have dS: "distinct (map fst ?S)"
    using des by (simp add: distinct_map)
  have sS: "sorted (map fst ?S)" by (rule sorted_sort_key)
  have pre_set: "set pre = {y \<in> set ?S. fst y < fst x}" if "?S = pre @ x # post" for pre x post
    using sorted_distinct_prefix[of fst pre x post] sS dS that by simp
  show ?thesis
  proof
    assume ?L
    then obtain pre g a post where dec: "?S = pre @ (g, r, c, a) # post"
      and wt: "within_tolerance a (running_max NegInf pre)"
      by (auto simp: swept_iff)
    have "(g, r, c, a) \<in> set ?S" using dec by simp
    then obtain rc where rc: "rc \<in> set B" "?ent rc = (g, r, c, a)"
      using setS by auto
    then have rc_eq: "rc = (r, c)" "g = multiplier obs_r obs_c (r, c)"
        "a = angle_at dem oe obs_r obs_c cs curv (r, c)"
      by (auto simp: entry_of_def prod_eq_iff)
    have ps: "set pre = {y \<in> set ?S. fst y < g}" using pre_set[OF dec] by simp
    have all: "\<forall>e \<in> set pre. snd (snd (snd e)) - epsilon \<le> a"
      using wt by (simp add: within_running_max)
    have "angle_at dem oe obs_r obs_c cs curv rc' - epsilon \<le> a"
      if "rc' \<in> set B" "multiplier obs_r obs_c rc' < multiplier obs_r obs_c (r, c)" for rc'
    proof -
      have "?ent rc' \<in> set pre"
        using that setS ps rc_eq(2) by (auto simp: entry_of_def)
      then show ?thesis using all by (force simp: entry_of_def)
    qed
    then show ?R using rc(1) rc_eq by auto
  next
    assume R: ?R
    then have "?ent (r, c) \<in> set ?S" using setS by blast
    then obtain pre post where dec: "?S = pre @ ?ent (r, c) # post"
      by (meson split_list)
    have ps: "set pre = {y \<in> set ?S. fst y < multiplier obs_r obs_c (r, c)}"
      using pre_set[OF dec] by (simp add: entry_of_def)
    have "\<forall>e \<in> set pre. snd (snd (snd e)) - epsilon \<le> angle_at dem oe obs_r obs_c cs curv (r, c)"
    proof
      fix e assume "e \<in> set pre"
      then obtain rc' where "rc' \<in> set B" "e = ?ent rc'"
        "multiplier obs_r obs_c rc' < multiplier obs_r obs_c (r, c)"
        using ps setS by (auto simp: entry_of_def)
      then show "snd (snd (snd e)) - epsilon \<le> angle_at dem oe obs_r obs_c cs curv (r, c)"
        using R by (auto simp: entry_of_def)
    qed
    then have "within_tolerance (angle_at dem oe obs_r obs_c cs curv (r, c)) (running_max NegInf pre)"
      by (simp add: within_running_max)
    then show ?L
      using dec unfolding swept_iff entry_of_def by auto
  qed
qed

lemma radial_sweep_iff:
  assumes "has_shape (nrows dem) (ncols dem) v" "r < nrows dem" "c < ncols dem"
  shows "at2 (fold sweep_bucket
                (fold (\<lambda>rc rays. setdefault_append rays (direction_of obs_r obs_c rc)
                                   (entry_of dem oe obs_r obs_c cs curv rc))
                   (filter (ray_member dem obs_r obs_c) (cells (nrows dem) (ncols dem))) []) v) r c
           \<longleftrightarrow> at2 v r c \<or> radial_visible dem oe obs_r obs_c cs curv (r, c)"
proof -
  define M where "M = filter (ray_member dem obs_r obs_c) (cells (nrows dem) (ncols dem))"
  define ent where "ent = entry_of dem oe obs_r obs_c cs curv"
  define R where "R = fold (\<lambda>rc rays. setdefault_append rays (direction_of obs_r obs_c rc) (ent rc)) M []"
  define L where "L = concat (map (\<lambda>b. swept (sort_key fst (snd b)) NegInf) R)"
  define B where "B = (\<lambda>k. filter (\<lambda>x. direction_of obs_r obs_c x = k) M)"
  define S where "S = (\<lambda>k. set (swept (sort_key fst (map ent (B k))) NegInf))"
  have inR: "(k, es) \<in> set R \<longleftrightarrow> es = map ent (B k) \<and> es \<noteq> []" for k es
    unfolding R_def B_def by (rule set_bucketing)
  have bs: "(r', c') \<in> S k \<longleftrightarrow>
           (r', c') \<in> set (B k) \<and>
           (\<forall>rc' \<in> set (B k). multiplier obs_r obs_c rc' < multiplier obs_r obs_c (r', c') \<longrightarrow>
              angle_at dem oe obs_r obs_c cs curv rc' - epsilon
                \<le> angle_at dem oe obs_r obs_c cs curv (r', c'))" for r' c' k
    unfolding S_def B_def M_def ent_def by (rule bucket_swept)
  have setB: "set (B k) = {rc. fst rc < nrows dem \<and> snd rc < ncols dem
                 \<and> ray_member dem obs_r obs_c rc \<and> direction_of obs_r obs_c rc = k}" for k
    by (auto simp: B_def M_def set_cells)
  have memL: "rc \<in> set L \<longleftrightarrow> (\<exists>k. rc \<in> S k)" for rc
  proof
    assume "rc \<in> set L"
    then obtain b where b: "b \<in> set R" "rc \<in> set (swept (sort_key fst (snd b)) NegInf)"
      unfolding L_def by auto
    obtain k es where ke: "b = (k, es)" by (cases b)
    then have "es = map ent (B k)" using b(1) inR by blast
    then have "rc \<in> S k" using b(2) ke unfolding S_def by simp
    then show "\<exists>k. rc \<in> S k" ..
  next
    assume "\<exists>k. rc \<in> S k"
    then obtain k where k: "rc \<in> S k" by blast
    then have "map ent (B k) \<noteq> []" unfolding S_def by auto
    then have "(k, map ent (B k)) \<in> set R" using inR by blast
    then show "rc \<in> set L" using k unfolding L_def S_def by force
  qed
  have range: "\<forall>rc \<in> set L. fst rc < nrows dem \<and> snd rc < ncols dem"
  proof
    fix rc assume "rc \<in> set L"
    then obtain k where "rc \<in> S k" using memL by blast
    then have "(fst rc, snd rc) \<in> set (B k)" using bs[of "fst rc" "snd rc" k] by simp
    then show "fst rc < nrows dem \<and> snd rc < ncols dem" by (simp add: setB)
  qed
  have "at2 (fold sweep_bucket R v) r c \<longleftrightarrow> at2 v r c \<or> (r, c) \<in> set L"
    unfolding fold_sweep_bucket L_def[symmetric] by (rule at2_mark[OF assms(1) range assms(3)])
  moreover have "(r, c) \<in> set L \<longleftrightarrow> radial_visible dem oe obs_r obs_c cs curv (r, c)"
  proof
    assume "(r, c) \<in> set L"
    then obtain k where k: "(r, c) \<in> S k" using memL by blast
    note b = k[unfolded bs]
    from b have "direction_of obs_r obs_c (r, c) = k" by (simp add: setB)
    with b show "radial_visible dem oe obs_r obs_c cs curv (r, c)"
      unfolding radial_visible_def list_all_iff setB set_cells by auto
  next
    assume rv: "radial_visible dem oe obs_r obs_c cs curv (r, c)"
    have "(r, c) \<in> S (direction_of obs_r obs_c (r, c))"
      unfolding bs setB using rv assms(2,3)
      unfolding radial_visible_def list_all_iff set_cells by auto
    then show "(r, c) \<in> set L" using memL by blast
  qed
  ultimately show ?thesis unfolding R_def M_def ent_def by simp
qed

lemma validate_inputs_Inr:
  "validate_inputs dem obs h cs = Inr u \<longleftrightarrow> ndim dem = 2 \<and> 0 < cs \<and> 0 \<le> h \<and> in_bounds dem obs"
  by (auto simp: validate_inputs_def in_bounds_def Let_def)

lemma validate_inputs_Inl:
  "validate_inputs dem obs h cs = Inl e \<longleftrightarrow>
     (if ndim dem \<noteq> 2 then e = ShapeError
      else if cs \<le> 0 \<or> h < 0 then e = InvalidParameterError
      else \<not> in_bounds dem obs \<and> e = OutOfBoundsError)"
  by (auto simp: validate_inputs_def in_bounds_def Let_def)

lemma baseline_Inr_iff:
  "priv_compute_viewshed_baseline dem obs h cs curv = Inr m \<longleftrightarrow>
     validate_inputs dem obs h cs = Inr () \<and>
     at2 dem (nat (fst obs)) (nat (snd obs)) \<noteq> None \<and>
     m = mark (filter (baseline_visible dem (observer_elevation_of dem obs h) (fst obs) (snd obs) cs curv)
                 (cells (nrows dem) (ncols dem)))
           (set2 (zeros (nrows dem) (ncols dem)) (nat (fst obs)) (nat (snd obs)) True)"
  by (auto simp: priv_compute_viewshed_baseline_def baseline_fold observer_elevation_of_def Let_def
           split: sum.splits option.splits)

lemma radial_Inr_iff:
  "priv_compute_viewshed_radial dem obs h cs curv = Inr m \<longleftrightarrow>
     validate_inputs dem obs h cs = Inr () \<and>
     at2 dem (nat (fst obs)) (nat (snd obs)) \<noteq> None \<and>
     m = fold sweep_bucket
           (fold (\<lambda>rc rays. setdefault_append rays (direction_of (fst obs) (snd obs) rc)
                    (entry_of dem (observer_elevation_of dem obs h) (fst obs) (snd obs) cs curv rc))
              (filter (ray_member dem (fst obs) (snd obs)) (cells (nrows dem) (ncols dem))) [])
           (set2 (zeros (nrows dem) (ncols dem)) (nat (fst obs)) (nat (snd obs)) True)"
  by (auto simp: priv_compute_viewshed_radial_def radial_fold observer_elevation_of_def Let_def
           split: sum.splits option.splits)

lemma baseline_Inl_iff:
  "priv_compute_viewshed_baseline dem obs h cs curv = Inl e \<longleftrightarrow>
     validate_inputs dem obs h cs = Inl e \<or>
     (validate_inputs dem obs h cs = Inr () \<and> at2 dem (nat (fst obs)) (nat (snd obs)) = None
        \<and> e = NoDataError)"
  by (auto simp: priv_compute_viewshed_baseline_def Let_def split: sum.splits option.splits)

lemma radial_Inl_iff:
  "priv_compute_viewshed_radial dem obs h cs curv = Inl e \<longleftrightarrow>
     validate_inputs dem obs h cs = Inl e \<or>
     (validate_inputs dem obs h cs = Inr () \<and> at2 dem (nat (fst obs)) (nat (snd obs)) = None
        \<and> e = NoDataError)"
  by (auto simp: priv_compute_viewshed_radial_def Let_def split: sum.splits option.splits)

lemma at2_initial:
  assumes "in_bounds dem obs" "r < nrows dem" "c < ncols dem"
  shows "at2 (set2 (zeros (nrows dem) (ncols dem)) (nat (fst obs)) (nat (snd obs)) True) r c
           \<longleftrightarrow> (int r, int c) = obs"
proof -
  have b: "nat (fst obs) < nrows dem" "nat (snd obs) < ncols dem"
    using assms(1) by (auto simp: in_bounds_def)
  have "at2 (set2 (zeros (nrows dem) (ncols dem)) (nat (fst obs)) (nat (snd obs)) True) r c
          \<longleftrightarrow> r = nat (fst obs) \<and> c = nat (snd obs)"
    using at2_set2[OF has_shape_zeros b assms(3), of True r] at2_zeros[OF assms(2,3)] by simp
  also have "\<dots> \<longleftrightarrow> (int r, int c) = obs"
    using assms(1) by (auto simp: in_bounds_def prod_eq_iff)
  finally show ?thesis .
qed

lemma has_shape_initial:
  "has_shape rows cols (set2 (zeros rows cols) r c True)"
  by (simp add: has_shape_set2 has_shape_zeros)

lemma baseline_has_shape:
  "priv_compute_viewshed_baseline dem obs h cs curv = Inr m \<Longrightarrow> has_shape (nrows dem) (ncols dem) m"
  by (simp add: baseline_Inr_iff has_shape_mark has_shape_initial)

lemma radial_has_shape:
  "priv_compute_viewshed_radial dem obs h cs curv = Inr m \<Longrightarrow> has_shape (nrows dem) (ncols dem) m"
  by (simp add: radial_Inr_iff fold_sweep_bucket has_shape_mark has_shape_initial)

lemma shape_rank2: "ndim dem = 2 \<Longrightarrow> shape dem = [nrows dem, ncols dem]"
proof -
  assume "ndim dem = 2"
  then have "length (shape dem) = 2" by (simp add: ndim_def)
  then obtain a b where "shape dem = [a, b]"
    by (metis (no_types, opaque_lifting) Suc_length_conv length_0_conv numeral_2_eq_2)
  then show ?thesis by (simp add: nrows_def ncols_def)
qed

lemma baseline_at2:
  assumes "priv_compute_viewshed_baseline dem obs h cs curv = Inr m" "r < nrows dem" "c < ncols dem"
  shows "at2 m r c \<longleftrightarrow> (int r, int c) = obs \<or>
           baseline_visible dem (observer_elevation_of dem obs h) (fst obs) (snd obs) cs curv (r, c)"
proof -
  have ib: "in_bounds dem obs" using assms(1) by (simp add: baseline_Inr_iff validate_inputs_Inr)
  let ?F = "filter (baseline_visible dem (observer_elevation_of dem obs h) (fst obs) (snd obs) cs curv)
              (cells (nrows dem) (ncols dem))"
  let ?v = "set2 (zeros (nrows dem) (ncols dem)) (nat (fst obs)) (nat (snd obs)) True"
  have m: "m = mark ?F ?v" using assms(1) by (simp add: baseline_Inr_iff)
  have range: "\<forall>rc \<in> set ?F. fst rc < nrows dem \<and> snd rc < ncols dem"
    by (simp add: set_cells)
  have "at2 m r c \<longleftrightarrow> at2 ?v r c \<or> (r, c) \<in> set ?F"
    unfolding m by (rule at2_mark[OF has_shape_initial range assms(3)])
  then show ?thesis using assms(2,3) by (simp add: at2_initial[OF ib assms(2,3)] set_cells)
qed

lemma radial_at2:
  assumes "priv_compute_viewshed_radial dem obs h cs curv = Inr m" "r < nrows dem" "c < ncols dem"
  shows "at2 m r c \<longleftrightarrow> (int r, int c) = obs \<or>
           radial_visible dem (observer_elevation_of dem obs h) (fst obs) (snd obs) cs curv (r, c)"
proof -
  have ib: "in_bounds dem obs" using assms(1) by (simp add: radial_Inr_iff validate_inputs_Inr)
  show ?thesis
    using assms(1) unfolding radial_Inr_iff
    by (simp add: radial_sweep_iff[OF has_shape_initial assms(2,3)] at2_initial[OF ib assms(2,3)])
qed

lemmas array_eval = ndim_def nrows_def ncols_def at2_def set2_def zeros_def

lemmas engine_eval = priv_compute_viewshed_baseline_def priv_compute_viewshed_radial_def
  compute_viewshed_def compute_viewshed_radial_def compute_viewshed_baseline_def
  validate_inputs_def baseline_cell_def radial_cell_def line_of_sight_def los_blocked_def
  bilinear_sample_def sweep_bucket_def Let_def

lemma public_engines:
  "compute_viewshed_baseline = priv_compute_viewshed_baseline"
  "compute_viewshed_radial = priv_compute_viewshed_radial"
  "compute_viewshed = priv_compute_viewshed_baseline"
  by (intro ext, simp add: compute_viewshed_baseline_def compute_viewshed_radial_def
        compute_viewshed_def)+

lemma engine_at2:
  assumes "engine = priv_compute_viewshed_baseline \<or> engine = priv_compute_viewshed_radial"
      and "engine dem obs h cs curv = Inr m"
  shows "has_shape (nrows dem) (ncols dem) m" "in_bounds dem obs" "ndim dem = 2"
        "at2 m (nat (fst obs)) (nat (snd obs))"
proof -
  show hs: "has_shape (nrows dem) (ncols dem) m"
    using assms baseline_has_shape radial_has_shape by blast
  have v: "validate_inputs dem obs h cs = Inr ()"
    using assms baseline_Inr_iff radial_Inr_iff by blast
  then show ib: "in_bounds dem obs" and nd: "ndim dem = 2"
    by (simp_all add: validate_inputs_Inr)
  let ?r = "nat (fst obs)" and ?c = "nat (snd obs)"
  have b: "?r < nrows dem" "?c < ncols dem" "(int ?r, int ?c) = obs"
    using ib by (auto simp: in_bounds_def prod_eq_iff)
  show "at2 m ?r ?c"
    using assms baseline_at2[OF _ b(1,2)] radial_at2[OF _ b(1,2)] b(3) by blast
qed

lemma grid_length:
  "length (concat (map (\<lambda>r. map (g r) [0..<cols]) [0..<rows])) = rows * cols"
  by (induction rows) simp_all

lemma grid_nth:
  "r < rows \<Longrightarrow> c < cols \<Longrightarrow>
   concat (map (\<lambda>r. map (g r) [0..<cols]) [0..<rows]) ! (r * cols + c) = g r c"
proof (induction rows)
  case 0
  then show ?case by simp
next
  case (Suc rows)
  let ?G = "\<lambda>n. concat (map (\<lambda>r. map (g r) [0..<cols]) [0..<n])"
  have l: "length (?G rows) = rows * cols" by (rule grid_length)
  show ?case
  proof (cases "r < rows")
    case True
    then have "r * cols + c < rows * cols" using Suc.prems(2) by (rule idx_lt)
    then show ?thesis using Suc.IH[OF True Suc.prems(2)] l by (simp add: nth_append)
  next
    case False
    then have r: "r = rows" using Suc.prems(1) by simp
    show ?thesis using Suc.prems(2) l by (simp add: r nth_append)
  qed
qed

lemma grid_const:
  "(\<And>r c. r < rows \<Longrightarrow> c < cols \<Longrightarrow> g r c = x) \<Longrightarrow>
   concat (map (\<lambda>r. map (g r) [0..<cols]) [0..<rows]) = replicate (rows * cols) x"
proof (rule nth_equalityI)
  show "length (concat (map (\<lambda>r. map (g r) [0..<cols]) [0..<rows])) = length (replicate (rows * cols) x)"
    by (simp add: grid_length)
next
  fix i
  assume a: "\<And>r c. r < rows \<Longrightarrow> c < cols \<Longrightarrow> g r c = x"
     and i: "i < length (concat (map (\<lambda>r. map (g r) [0..<cols]) [0..<rows]))"
  then have il: "i < rows * cols" by (simp add: grid_length)
  then have cp: "0 < cols" by (cases cols) auto
  have rc: "i div cols < rows" "i mod cols < cols"
    using il cp by (simp_all add: less_mult_imp_div_less)
  have "i = (i div cols) * cols + i mod cols" by simp
  then have "concat (map (\<lambda>r. map (g r) [0..<cols]) [0..<rows]) ! i = g (i div cols) (i mod cols)"
    using grid_nth[OF rc, of g] by simp
  then show "concat (map (\<lambda>r. map (g r) [0..<cols]) [0..<rows]) ! i = replicate (rows * cols) x ! i"
    using a[OF rc] il by simp
qed

lemma has_shape_smooth_pass:
  "has_shape rows cols current \<Longrightarrow> has_shape rows cols (smooth_pass threshold current)"
  by (simp add: has_shape_def smooth_pass_def nrows_def ncols_def grid_length)

lemma bits_smooth_pass: "bits (smooth_pass threshold current)"
  by (auto simp: bits_def smooth_pass_def list_all_iff)

lemma at2_smooth_pass:
  assumes "has_shape rows cols current" "r < rows" "c < cols"
  shows "at2 (smooth_pass threshold current) r c =
           of_bool ((case threshold of Some t \<Rightarrow> t | None \<Rightarrow> 5) \<le> uint (window_sum current r c))"
proof -
  have d: "nrows current = rows" "ncols current = cols"
    using assms(1) has_shape_dims by blast+
  have n: "ncols (smooth_pass threshold current) = cols"
    using has_shape_smooth_pass[OF assms(1)] has_shape_dims by blast
  show ?thesis
    unfolding at2_def n
    by (simp add: smooth_pass_def d grid_nth[OF assms(2,3)])
qed

lemma padded_zero:
  assumes "has_shape rows cols current" "data current = replicate (rows * cols) 0"
  shows "padded current i j = 0"
proof -
  have d: "nrows current = rows" "ncols current = cols"
    using assms(1) has_shape_dims by blast+
  show ?thesis
  proof (cases "1 \<le> i \<and> i \<le> rows \<and> 1 \<le> j \<and> j \<le> cols")
    case True
    then have "(i - 1) * cols + (j - 1) < rows * cols" by (intro idx_lt) auto
    then show ?thesis by (simp add: padded_def d at2_def assms(2))
  next
    case False
    then show ?thesis by (auto simp: padded_def d)
  qed
qed

lemma smooth_pass_zero:
  assumes "has_shape rows cols current" "data current = replicate (rows * cols) 0"
  shows "smooth_pass None current = current"
proof -
  have d: "nrows current = rows" "ncols current = cols"
    using assms(1) has_shape_dims by blast+
  have "window_sum current r c = 0" for r c
    by (simp add: window_sum_def padded_zero[OF assms])
  then have "data (smooth_pass None current) = replicate (rows * cols) 0"
    by (simp add: smooth_pass_def d grid_const)
  then show ?thesis using assms(2) by (simp add: smooth_pass_def)
qed

lemma smooth_passes_zero:
  assumes "has_shape rows cols current" "data current = replicate (rows * cols) 0"
  shows "(smooth_pass None ^^ n) current = current"
  by (induction n) (simp_all add: smooth_pass_zero[OF assms])

lemma padded_bit:
  assumes "has_shape rows cols current" "bits current"
  shows "padded current i j = 0 \<or> padded current i j = 1"
proof -
  have d: "nrows current = rows" "ncols current = cols"
    using assms(1) has_shape_dims by blast+
  show ?thesis
  proof (cases "1 \<le> i \<and> i \<le> rows \<and> 1 \<le> j \<and> j \<le> cols")
    case True
    then have "(i - 1) * cols + (j - 1) < rows * cols" by (intro idx_lt) auto
    then have "data current ! ((i - 1) * cols + (j - 1)) \<in> set (data current)"
      using assms(1) by (simp add: has_shape_def)
    then show ?thesis using assms(2) True by (auto simp: padded_def d at2_def bits_def list_all_iff)
  next
    case False
    then show ?thesis by (auto simp: padded_def d)
  qed
qed

lemma corner_window:
  assumes "has_shape rows cols current" "bits current"
  shows "uint (window_sum current 0 0) < 5"
proof -
  have z: "padded current 0 j = 0" "padded current i 0 = 0" for i j
    by (simp_all add: padded_def)
  have "window_sum current 0 0 =
          padded current 1 1 + padded current 1 2 + padded current 2 1 + padded current 2 2"
    by (simp add: window_sum_def z numeral_2_eq_2)
  then show ?thesis
    using padded_bit[OF assms, of 1 1] padded_bit[OF assms, of 1 2]
          padded_bit[OF assms, of 2 1] padded_bit[OF assms, of 2 2]
    by auto
qed

lemma corner_after_pass:
  assumes "has_shape rows cols current" "bits current" "0 < rows" "0 < cols"
  shows "at2 (smooth_pass None current) 0 0 = 0"
  using corner_window[OF assms(1,2)] by (simp add: at2_smooth_pass[OF assms(1,3,4)])

lemma passes_invariant:
  assumes "has_shape rows cols current" "bits current"
  shows "has_shape rows cols ((smooth_pass threshold ^^ n) current)
         \<and> bits ((smooth_pass threshold ^^ n) current)"
  using assms by (induction n) (simp_all add: has_shape_smooth_pass bits_smooth_pass)

lemma corner_after_passes:
  assumes "has_shape rows cols current" "bits current" "0 < rows" "0 < cols" "0 < n"
  shows "at2 ((smooth_pass None ^^ n) current) 0 0 = 0"
proof -
  obtain k where n: "n = Suc k" using assms(5) by (cases n) auto
  have inv: "has_shape rows cols ((smooth_pass None ^^ k) current)"
            "bits ((smooth_pass None ^^ k) current)"
    using passes_invariant[OF assms(1,2), where threshold = None and n = k] by simp_all
  show ?thesis
    using corner_after_pass[OF inv assms(3,4)] by (simp add: n)
qed

lemmas smooth_eval = smooth_visibility_mask_def smooth_pass_def window_sum_def padded_def
  has_shape_def Let_def


lemma engine_success:
  assumes "valid_input dem obs h cs"
  shows "\<exists>m. priv_compute_viewshed_baseline dem obs h cs curv = Inr m"
        "\<exists>m. priv_compute_viewshed_radial dem obs h cs curv = Inr m"
  using assms
  by (simp_all add: valid_input_def wf2_def baseline_Inr_iff radial_Inr_iff validate_inputs_Inr)








lemma running_max_append:
  "running_max m (xs @ ys) = running_max (running_max m xs) ys"
  by (induction m xs rule: running_max.induct) simp_all

lemma sweep_append:
  "sweep (xs @ ys) m v = sweep ys (running_max m xs) (sweep xs m v)"
proof (induction xs m v rule: sweep.induct)
  case (1 m v)
  then show ?case by simp
next
  case (2 g r c angle entries m v)
  show ?case
  proof (cases "within_tolerance angle m")
    case True
    then show ?thesis using 2(1) by simp
  next
    case False
    then have "\<not> above angle m" using above_within by blast
    then show ?thesis using False 2(2) by simp
  qed
qed

lemma hypot_nonneg: "0 \<le> hypot x y"
  by (simp add: hypot_def)


























section \<open>The claims\<close>

subsection \<open>C1: the default entry point\<close>

text \<open>
  C1 says that \<^verbatim>\<open>compute_viewshed\<close> returns the mask of \<^verbatim>\<open>compute_viewshed_radial\<close>.
  Its body calls the baseline engine. On a 2 x 3 grid that is flat but for a 100 m hill
  at (1, 1), seen from (0, 0), the baseline engine finds (1, 2) hidden behind the hill
  while the radial engine, for which (1, 2) is alone on its ray, marks it visible: the
  two entry points return different masks.
\<close>

theorem compute_viewshed_not_radial:
  "compute_viewshed
     \<lparr>shape = [2, 3], data = [Some 0, Some 0, Some 0, Some 0, Some 100, Some 0]\<rparr> (0, 0) 0 1 False
     = Inr \<lparr>shape = [2, 3], data = [True, True, True, True, True, False]\<rparr>
   \<and> compute_viewshed_radial
     \<lparr>shape = [2, 3], data = [Some 0, Some 0, Some 0, Some 0, Some 100, Some 0]\<rparr> (0, 0) 0 1 False
     = Inr \<lparr>shape = [2, 3], data = [True, True, True, True, True, True]\<rparr>
   \<and> compute_viewshed
     \<lparr>shape = [2, 3], data = [Some 0, Some 0, Some 0, Some 0, Some 100, Some 0]\<rparr> (0, 0) 0 1 False
     = compute_viewshed_baseline
     \<lparr>shape = [2, 3], data = [Some 0, Some 0, Some 0, Some 0, Some 100, Some 0]\<rparr> (0, 0) 0 1 False"
  by (simp add: array_eval engine_eval upt_rec eval_nat_numeral hypot_def atan2_def epsilon_def)

subsection \<open>C4: shape and observer cell of the mask\<close>

text \<open>
  C4: whenever a call of either engine succeeds, the mask it returns has the shape of the
  grid (and as many elements), and the observer's own cell is true.
\<close>

theorem mask_shape_and_observer:
  assumes "engine = compute_viewshed_baseline \<or> engine = compute_viewshed_radial"
      and "engine dem observer_rc observer_height_m cell_size_m curvature_enabled = Inr m"
  shows "shape m = shape dem \<and> length (data m) = nrows dem * ncols dem
         \<and> at2 m (nat (fst observer_rc)) (nat (snd observer_rc)) = True"
proof -
  have pe: "engine = priv_compute_viewshed_baseline \<or> engine = priv_compute_viewshed_radial"
    using assms(1) by (simp add: public_engines)
  show ?thesis
    using engine_at2[OF pe assms(2)] shape_rank2[of dem] by (simp add: has_shape_def)
qed

text \<open>A successful radial call on a 1 x 2 grid.\<close>

theorem mask_shape_and_observer_witness:
  "compute_viewshed_radial \<lparr>shape = [1, 2], data = [Some 0, Some 1]\<rparr> (0, 0) 1 1 False
     = Inr \<lparr>shape = [1, 2], data = [True, True]\<rparr>
   \<and> shape \<lparr>shape = [1, 2], data = [True, True]\<rparr> = shape \<lparr>shape = [1, 2], data = [Some (0::real), Some 1]\<rparr>
   \<and> at2 \<lparr>shape = [1, 2], data = [True, True]\<rparr> (nat (fst (0::int, 0::int))) (nat (snd (0::int, 0::int))) = True"
proof -
  have e: "compute_viewshed_radial \<lparr>shape = [1, 2], data = [Some 0, Some 1]\<rparr> (0, 0) 1 1 False
     = Inr \<lparr>shape = [1, 2], data = [True, True]\<rparr>"
    by (simp add: array_eval engine_eval upt_rec eval_nat_numeral)
  show ?thesis
    using e mask_shape_and_observer[OF disjI2[OF refl] e] by simp
qed

subsection \<open>C5: the four errors\<close>

text \<open>
  C5, amended: the checks run in a fixed order (rank, parameters, bounds, observer
  elevation) and each error is raised exactly when its own condition holds and no earlier
  check has failed; the call succeeds exactly when no condition holds. Which error a failing
  call raises is decided by the validator and the observer's cell alone, and a failing call
  returns no mask.
\<close>

theorem fail_fast_errors:
  assumes "engine = priv_compute_viewshed_baseline \<or> engine = priv_compute_viewshed_radial"
  shows "(engine dem obs h cs curv = Inl ShapeError \<longleftrightarrow> ndim dem \<noteq> 2)
     \<and> (engine dem obs h cs curv = Inl InvalidParameterError \<longleftrightarrow>
          ndim dem = 2 \<and> (cs \<le> 0 \<or> h < 0))
     \<and> (engine dem obs h cs curv = Inl OutOfBoundsError \<longleftrightarrow>
          ndim dem = 2 \<and> 0 < cs \<and> 0 \<le> h \<and> \<not> in_bounds dem obs)
     \<and> (engine dem obs h cs curv = Inl NoDataError \<longleftrightarrow>
          ndim dem = 2 \<and> 0 < cs \<and> 0 \<le> h \<and> in_bounds dem obs
          \<and> at2 dem (nat (fst obs)) (nat (snd obs)) = None)
     \<and> ((\<exists>m. engine dem obs h cs curv = Inr m) \<longleftrightarrow>
          ndim dem = 2 \<and> 0 < cs \<and> 0 \<le> h \<and> in_bounds dem obs
          \<and> at2 dem (nat (fst obs)) (nat (snd obs)) \<noteq> None)
     \<and> (engine dem obs h cs curv = Inl e \<longleftrightarrow>
          validate_inputs dem obs h cs = Inl e
          \<or> (validate_inputs dem obs h cs = Inr ()
              \<and> at2 dem (nat (fst obs)) (nat (snd obs)) = None \<and> e = NoDataError))"
proof -
  have inl: "engine dem obs h cs curv = Inl e \<longleftrightarrow>
          validate_inputs dem obs h cs = Inl e
          \<or> (validate_inputs dem obs h cs = Inr ()
              \<and> at2 dem (nat (fst obs)) (nat (snd obs)) = None \<and> e = NoDataError)" for e
    using assms baseline_Inl_iff radial_Inl_iff by blast
  have inr: "(\<exists>m. engine dem obs h cs curv = Inr m) \<longleftrightarrow>
          validate_inputs dem obs h cs = Inr ()
          \<and> at2 dem (nat (fst obs)) (nat (snd obs)) \<noteq> None"
    using assms by (auto simp: baseline_Inr_iff radial_Inr_iff)
  show ?thesis
    unfolding inl inr validate_inputs_Inl validate_inputs_Inr by auto
qed

text \<open>A 1 x 1 grid whose only cell, the observer's, is NaN.\<close>

theorem fail_fast_errors_witness:
  "priv_compute_viewshed_radial \<lparr>shape = [1, 1], data = [None]\<rparr> (0, 0) 0 1 False = Inl NoDataError
   \<and> ndim \<lparr>shape = [1, 1], data = [None :: elevation]\<rparr> = 2
   \<and> in_bounds \<lparr>shape = [1, 1], data = [None :: elevation]\<rparr> (0, 0)
   \<and> priv_compute_viewshed_radial \<lparr>shape = [1, 1], data = [None]\<rparr> (0, 0) 0 1 False \<noteq> Inl ShapeError"
  using fail_fast_errors[OF disjI2[OF refl], of "\<lparr>shape = [1, 1], data = [None]\<rparr>" "(0, 0)" 0 1 False]
  by (simp add: array_eval in_bounds_def)

text \<open>
  C5 as stated fails where two conditions hold at once: with \<^verbatim>\<open>cell_size_m = 0\<close> and the
  observer at (5, 5) outside a 1 x 1 grid, the observer is out of bounds and the error
  raised is not the out-of-bounds error (it is the invalid-parameter error).
\<close>

theorem out_of_bounds_iff_counterexample:
  "\<not> (priv_compute_viewshed_baseline \<lparr>shape = [1, 1], data = [Some 0]\<rparr> (5, 5) 0 0 False
          = Inl OutOfBoundsError
        \<longleftrightarrow> \<not> in_bounds \<lparr>shape = [1, 1], data = [Some 0]\<rparr> (5, 5))"
  by (simp add: array_eval engine_eval in_bounds_def)

subsection \<open>C7: the bilinear sampler\<close>

text \<open>
  C7: the sampler returns NaN exactly when the floor of the queried coordinate lies outside
  the grid or one of the four corner values it reads is NaN; otherwise it returns the
  bilinear weighted average of the four corners. The neighbour index is the next row
  (column), or the last one itself at the far edge, where the edge value is read twice.
\<close>

theorem bilinear_sample_cases:
  "let rows = int (nrows dem); cols = int (ncols dem);
       r0 = \<lfloor>row\<rfloor>; c0 = \<lfloor>col\<rfloor>;
       inside = (0 \<le> r0 \<and> r0 < rows \<and> 0 \<le> c0 \<and> c0 < cols);
       r1 = (if r0 + 1 < rows then r0 + 1 else r0);
       c1 = (if c0 + 1 < cols then c0 + 1 else c0);
       e00 = at2 dem (nat r0) (nat c0); e10 = at2 dem (nat r1) (nat c0);
       e01 = at2 dem (nat r0) (nat c1); e11 = at2 dem (nat r1) (nat c1);
       dr = row - of_int r0; dc = col - of_int c0
   in (bilinear_sample dem row col = None \<longleftrightarrow>
         \<not> inside \<or> e00 = None \<or> e10 = None \<or> e01 = None \<or> e11 = None)
      \<and> (inside \<and> e00 \<noteq> None \<and> e10 \<noteq> None \<and> e01 \<noteq> None \<and> e11 \<noteq> None \<longrightarrow>
           bilinear_sample dem row col =
             Some (the e00 * (1 - dr) * (1 - dc) + the e10 * dr * (1 - dc)
                   + the e01 * (1 - dr) * dc + the e11 * dr * dc))
      \<and> (inside \<and> r0 = rows - 1 \<longrightarrow> e10 = e00 \<and> e11 = e01)
      \<and> (inside \<and> c0 = cols - 1 \<longrightarrow> e01 = e00 \<and> e11 = e10)"
proof -
  have m: "min (r + 1) (n - 1) = (if r + 1 < n then r + 1 else r)" if "r < n" for r n :: int
    using that by auto
  show ?thesis
    unfolding Let_def bilinear_sample_def
    by (auto simp: m split: option.splits)
qed

text \<open>
  A 2 x 2 grid sampled at its centre, at its far corner (on the boundary), below its last
  row, and next to a NaN cell.
\<close>

theorem bilinear_sample_cases_witness:
  "bilinear_sample \<lparr>shape = [2, 2], data = [Some 0, Some 10, Some 20, Some 30]\<rparr> (1 / 2) (1 / 2) = Some 15
   \<and> bilinear_sample \<lparr>shape = [2, 2], data = [Some 0, Some 10, Some 20, Some 30]\<rparr> 1 1 = Some 30
   \<and> bilinear_sample \<lparr>shape = [2, 2], data = [Some 0, Some 10, Some 20, Some 30]\<rparr> 2 0 = None
   \<and> bilinear_sample \<lparr>shape = [2, 2], data = [Some 0, None, Some 20, Some 30]\<rparr> 0 0 = None"
  using bilinear_sample_cases[of "\<lparr>shape = [2, 2], data = [Some 0, Some 10, Some 20, Some 30]\<rparr>" "1 / 2" "1 / 2"]
        bilinear_sample_cases[of "\<lparr>shape = [2, 2], data = [Some 0, Some 10, Some 20, Some 30]\<rparr>" 1 1]
        bilinear_sample_cases[of "\<lparr>shape = [2, 2], data = [Some 0, Some 10, Some 20, Some 30]\<rparr>" 2 0]
        bilinear_sample_cases[of "\<lparr>shape = [2, 2], data = [Some 0, None, Some 20, Some 30]\<rparr>" 0 0]
  by (simp add: Let_def array_eval)

subsection \<open>C2: smoothing a uniform mask\<close>

text \<open>
  C2, amended: with the default threshold and any \<^verbatim>\<open>passes >= 1\<close>, a uniformly
  all-false 2D mask is returned unchanged. A non-empty uniformly all-true mask is not: the
  zero padding leaves its corner cell (0, 0) at most four set cells in its window, below the
  threshold 5, so that cell is false in the result.
\<close>

theorem smooth_uniform_masks:
  assumes "1 \<le> passes" "has_shape rows cols mask_in"
  shows "(list_all (\<lambda>b. \<not> b) (data mask_in) \<longrightarrow>
            smooth_visibility_mask mask_in passes None = Inr mask_in)
       \<and> (list_all (\<lambda>b. b) (data mask_in) \<and> 0 < rows \<and> 0 < cols \<longrightarrow>
            (\<exists>m. smooth_visibility_mask mask_in passes None = Inr m \<and> shape m = shape mask_in
                 \<and> at2 mask_in 0 0 = True \<and> at2 m 0 0 = False))"
proof (intro conjI impI)
  let ?cur = "\<lparr>shape = shape mask_in, data = map of_bool (data mask_in)\<rparr> :: 8 word ndarray"
  have nd: "ndim mask_in = 2" using assms(2) has_shape_dims by blast
  have hs: "has_shape rows cols ?cur" using assms(2) by (simp add: has_shape_def)
  have np: "\<not> passes < 1" "0 < nat passes" using assms(1) by simp_all
  {
    assume f: "list_all (\<lambda>b. \<not> b) (data mask_in)"
    have df: "data mask_in = replicate (rows * cols) False"
      using f assms(2) by (auto simp: has_shape_def list_all_iff intro!: replicate_eqI)
    have z: "data ?cur = replicate (rows * cols) 0" by (simp add: df)
    have "(smooth_pass None ^^ nat passes) ?cur = ?cur"
      by (rule smooth_passes_zero[OF hs z])
    then show "smooth_visibility_mask mask_in passes None = Inr mask_in"
      using nd np(1) by (simp add: smooth_visibility_mask_def df)
  }
  {
    assume t: "list_all (\<lambda>b. b) (data mask_in) \<and> 0 < rows \<and> 0 < cols"
    let ?res = "(smooth_pass None ^^ nat passes) ?cur"
    have b: "bits ?cur" by (auto simp: bits_def list_all_iff)
    have inv: "has_shape rows cols ?res"
      using passes_invariant[OF hs b] by blast
    have c: "at2 ?res 0 0 = 0"
      using corner_after_passes[OF hs b _ _ np(2)] t by simp
    have l: "0 < length (data ?res)" using inv t by (simp add: has_shape_def)
    let ?m = "\<lparr>shape = shape ?res, data = map (\<lambda>v. v \<noteq> 0) (data ?res)\<rparr>"
    have m: "smooth_visibility_mask mask_in passes None = Inr ?m"
      using nd np(1) by (simp add: smooth_visibility_mask_def Let_def)
    have "at2 ?m 0 0 = False"
      using c l by (simp add: at2_def)
    moreover have "shape ?m = shape mask_in" using inv assms(2) by (simp add: has_shape_def)
    moreover have "at2 mask_in 0 0 = True"
    proof -
      have "0 < length (data mask_in)" using assms(2) t by (simp add: has_shape_def)
      then have "data mask_in ! 0 \<in> set (data mask_in)" by simp
      then show ?thesis using t unfolding at2_def list_all_iff by auto
    qed
    ultimately show "\<exists>m. smooth_visibility_mask mask_in passes None = Inr m \<and> shape m = shape mask_in
                 \<and> at2 mask_in 0 0 = True \<and> at2 m 0 0 = False"
      using m by blast
  }
qed

text \<open>Two passes over the all-false and over the all-true 1 x 2 mask.\<close>

theorem smooth_uniform_masks_witness:
  "smooth_visibility_mask \<lparr>shape = [1, 2], data = [False, False]\<rparr> 2 None
     = Inr \<lparr>shape = [1, 2], data = [False, False]\<rparr>
   \<and> (\<exists>m. smooth_visibility_mask \<lparr>shape = [1, 2], data = [True, True]\<rparr> 2 None = Inr m
          \<and> at2 m 0 0 = False)"
  using smooth_uniform_masks[of 2 1 2 "\<lparr>shape = [1, 2], data = [False, False]\<rparr>"]
        smooth_uniform_masks[of 2 1 2 "\<lparr>shape = [1, 2], data = [True, True]\<rparr>"]
  by (simp add: has_shape_def) blast

text \<open>C2 as stated fails on the all-true 1 x 1 mask: one pass turns its only cell false.\<close>

theorem smooth_all_true_counterexample:
  "smooth_visibility_mask \<lparr>shape = [1, 1], data = [True]\<rparr> 1 None
     = Inr \<lparr>shape = [1, 1], data = [False]\<rparr>
   \<and> smooth_visibility_mask \<lparr>shape = [1, 1], data = [True]\<rparr> 1 None
     \<noteq> Inr \<lparr>shape = [1, 1], data = [True]\<rparr>"
  by (simp add: smooth_eval array_eval upt_rec eval_nat_numeral)

subsection \<open>C9: missing data at a target\<close>

text \<open>
  C9: on every valid input each engine returns a mask (no exception reaches the caller
  from the per-cell work), and in that mask no cell other than the observer whose own
  elevation is NaN is marked visible.
\<close>

theorem nan_cells_never_visible:
  assumes "engine = compute_viewshed_baseline \<or> engine = compute_viewshed_radial"
      and "valid_input dem observer_rc observer_height_m cell_size_m"
  shows "\<exists>m. engine dem observer_rc observer_height_m cell_size_m curvature_enabled = Inr m
           \<and> (\<forall>r < nrows dem. \<forall>c < ncols dem.
                 (int r, int c) \<noteq> observer_rc \<and> at2 dem r c = None \<longrightarrow> at2 m r c = False)"
proof -
  from assms(1) show ?thesis
  proof
    assume e: "engine = compute_viewshed_baseline"
    obtain m where m: "priv_compute_viewshed_baseline dem observer_rc observer_height_m
                          cell_size_m curvature_enabled = Inr m"
      using engine_success(1)[OF assms(2)] by blast
    have "at2 m r c = False"
      if "r < nrows dem" "c < ncols dem" "(int r, int c) \<noteq> observer_rc" "at2 dem r c = None" for r c
      using baseline_at2[OF m that(1,2)] that(3,4) by (simp add: baseline_visible_def)
    then show ?thesis using m by (auto simp: e public_engines)
  next
    assume e: "engine = compute_viewshed_radial"
    obtain m where m: "priv_compute_viewshed_radial dem observer_rc observer_height_m
                          cell_size_m curvature_enabled = Inr m"
      using engine_success(2)[OF assms(2)] by blast
    have "at2 m r c = False"
      if "r < nrows dem" "c < ncols dem" "(int r, int c) \<noteq> observer_rc" "at2 dem r c = None" for r c
      using radial_at2[OF m that(1,2)] that(3,4) by (simp add: radial_visible_def ray_member_def)
    then show ?thesis using m by (auto simp: e public_engines)
  qed
qed

text \<open>A transect whose middle cell is NaN, under both engines.\<close>

theorem nan_cells_never_visible_witness:
  "(\<exists>m. compute_viewshed_baseline \<lparr>shape = [1, 3], data = [Some 0, None, Some 0]\<rparr> (0, 0) 0 1 False
          = Inr m \<and> at2 m 0 1 = False)
   \<and> (\<exists>m. compute_viewshed_radial \<lparr>shape = [1, 3], data = [Some 0, None, Some 0]\<rparr> (0, 0) 0 1 False
          = Inr m \<and> at2 m 0 1 = False)"
proof -
  let ?d = "\<lparr>shape = [1, 3], data = [Some 0, None, Some 0]\<rparr> :: elevation ndarray"
  have v: "valid_input ?d (0, 0) 0 1"
    by (simp add: valid_input_def wf2_def in_bounds_def array_eval)
  have c: "(0::nat) < nrows ?d" "(1::nat) < ncols ?d" "(int 0, int 1) \<noteq> (0, 0)" "at2 ?d 0 1 = None"
    by (simp_all add: array_eval)
  show ?thesis
    using nan_cells_never_visible[OF disjI1[OF refl] v, of False]
          nan_cells_never_visible[OF disjI2[OF refl] v, of False] c
    by (metis (no_types, lifting))
qed

subsection \<open>C10: missing data on a ray\<close>



subsection \<open>C6: the sweep of one ray\<close>

text \<open>
  C6: a bucket is swept in ascending order of the distance multiplier (the swept list is
  the bucket sorted by its first component, a permutation of it). When the sweep reaches a
  member, the horizon it holds is the greatest angle of the members before it (minus
  infinity before the first); the member is marked exactly when its angle is at least that
  horizon minus \<open>1e-12\<close>, and the horizon moves to the member's angle exactly when that
  angle is strictly greater. For the mask as a whole: a cell of the radial mask is true iff
  it is the observer or a ray member whose angle is at least the angle of every nearer
  member of its ray minus the tolerance.
\<close>

theorem radial_sweep_horizon:
  assumes "sort_key fst entries = pre @ (g, r, c, angle) # post"
  shows "sorted (map fst (sort_key fst entries))
       \<and> mset (sort_key fst entries) = mset entries
       \<and> sweep_bucket (direction, entries) visibility =
           sweep post (running_max NegInf (pre @ [(g, r, c, angle)]))
             (if within_tolerance angle (running_max NegInf pre)
              then set2 (sweep pre NegInf visibility) r c True
              else sweep pre NegInf visibility)
       \<and> running_max NegInf pre =
           (if pre = [] then NegInf else Angle (Max (set (map (\<lambda>e. snd (snd (snd e))) pre))))
       \<and> running_max NegInf (pre @ [(g, r, c, angle)]) =
           (if above angle (running_max NegInf pre) then Angle angle else running_max NegInf pre)
       \<and> (within_tolerance angle (Angle h) \<longleftrightarrow> angle \<ge> h - 1 / 10 ^ 12)
       \<and> (above angle (Angle h) \<longleftrightarrow> angle > h)
       \<and> (\<forall>m. priv_compute_viewshed_radial dem observer_rc observer_height_m cell_size_m
                 curvature_enabled = Inr m \<longrightarrow>
              (\<forall>r' < nrows dem. \<forall>c' < ncols dem.
                 at2 m r' c' \<longleftrightarrow>
                   (int r', int c') = observer_rc
                   \<or> radial_visible dem (observer_elevation_of dem observer_rc observer_height_m)
                        (fst observer_rc) (snd observer_rc) cell_size_m curvature_enabled (r', c')))"
proof -
  have s: "sweep_bucket (direction, entries) visibility =
           sweep post (running_max NegInf (pre @ [(g, r, c, angle)]))
             (if within_tolerance angle (running_max NegInf pre)
              then set2 (sweep pre NegInf visibility) r c True
              else sweep pre NegInf visibility)"
  proof -
    have "sweep_bucket (direction, entries) visibility
            = sweep ((pre @ [(g, r, c, angle)]) @ post) NegInf visibility"
      by (simp add: sweep_bucket_def assms)
    also have "\<dots> = sweep post (running_max NegInf (pre @ [(g, r, c, angle)]))
                       (sweep (pre @ [(g, r, c, angle)]) NegInf visibility)"
      by (simp only: sweep_append)
    also have "sweep (pre @ [(g, r, c, angle)]) NegInf visibility
                 = sweep [(g, r, c, angle)] (running_max NegInf pre) (sweep pre NegInf visibility)"
      by (simp only: sweep_append)
    finally show ?thesis by simp
  qed
  have u: "running_max NegInf (pre @ [(g, r, c, angle)]) =
           (if above angle (running_max NegInf pre) then Angle angle else running_max NegInf pre)"
    by (simp add: running_max_append)
  show ?thesis
    using s u running_max_eq[of pre] radial_at2[of dem observer_rc observer_height_m cell_size_m
                                                 curvature_enabled]
    by (simp add: epsilon_def sorted_sort_key)
qed

text \<open>
  A bucket of two members given farthest first: the nearer member, of angle 1/2, is swept
  first and marked; the farther one, of angle 0, lies below the horizon and is not.
\<close>

theorem radial_sweep_horizon_witness:
  "sort_key fst [(2::int, 0::nat, 2::nat, 0::real), (1, 0, 1, 1 / 2)]
     = [(1, 0, 1, 1 / 2)] @ (2, 0, 2, 0) # []
   \<and> sweep_bucket ((0, 1), [(2, 0, 2, 0), (1, 0, 1, 1 / 2)]) (zeros 1 3)
     = set2 (zeros 1 3) 0 1 True
   \<and> running_max NegInf [(1, 0, 1, 1 / 2)] = Angle (1 / 2)
   \<and> \<not> within_tolerance 0 (Angle (1 / 2))"
proof -
  have a: "sort_key fst [(2::int, 0::nat, 2::nat, 0::real), (1, 0, 1, 1 / 2)]
             = [(1, 0, 1, 1 / 2)] @ (2, 0, 2, 0) # []"
    by simp
  show ?thesis
    using a radial_sweep_horizon[OF a, of "(0, 1)" "zeros 1 3" "1 / 2"]
    by (simp add: epsilon_def)
qed

subsection \<open>C8: a flat plane\<close>



subsection \<open>C3: curvature correction\<close>




end
